theory Spec2Isabelle
  imports Main "HOL-Library.Multiset" "HOL-Library.Sublist"
begin

section \<open>Data model of \<^verbatim>\<open>task_2_mapreduce_word_counter.py\<close>\<close>

text \<open>
  A Python \<^verbatim>\<open>str\<close> is a sequence of Unicode code points and \<^verbatim>\<open>len\<close> counts code
  points, so a string is a list of code points (natural numbers), not of bytes.
  \<open>str_of\<close> reads an ASCII literal as such a string.
\<close>

type_synonym codepoint = nat

type_synonym pystr = "codepoint list"

definition str_of :: "string \<Rightarrow> pystr" where
  "str_of s = map of_char s"

text \<open>
  A Python \<^verbatim>\<open>dict\<close> keeps its keys unique and in insertion order; \<^verbatim>\<open>items()\<close>
  walks it in that order. It is an association list whose keys are distinct, and the
  two ways the program writes to a dict are the functions below.
\<close>

type_synonym ('k, 'v) pydict = "('k \<times> 'v) list"

text \<open>\<^verbatim>\<open>d[k] = v\<close>: an existing key keeps its position, a new key goes to the end.\<close>

fun dict_setitem :: "('k, 'v) pydict \<Rightarrow> 'k \<Rightarrow> 'v \<Rightarrow> ('k, 'v) pydict" where
  "dict_setitem [] k v = [(k, v)]"
| "dict_setitem ((k', v') # d) k v =
     (if k' = k then (k, v) # d else (k', v') # dict_setitem d k v)"

text \<open>\<^verbatim>\<open>dict(pairs)\<close>: the pairs are stored one after the other.\<close>

definition dict_of_pairs :: "('k \<times> 'v) list \<Rightarrow> ('k, 'v) pydict" where
  "dict_of_pairs ps = fold (\<lambda>(k, v) d. dict_setitem d k v) ps []"

text \<open>
  \<^verbatim>\<open>shuffled[key].append(value)\<close> on a \<^verbatim>\<open>defaultdict(list)\<close>: a missing key is
  first inserted (at the end) with an empty list, then the value is appended to the
  key's list.
\<close>

fun defaultdict_append :: "('k, 'v list) pydict \<Rightarrow> 'k \<Rightarrow> 'v \<Rightarrow> ('k, 'v list) pydict" where
  "defaultdict_append [] k v = [(k, [v])]"
| "defaultdict_append ((k', vs) # d) k v =
     (if k' = k then (k', vs @ [v]) # d else (k', vs) # defaultdict_append d k v)"

datatype py_error = ValueError

section \<open>Library functions the program calls\<close>

subsection \<open>\<^verbatim>\<open>string.punctuation\<close>, \<^verbatim>\<open>str.maketrans\<close>, \<^verbatim>\<open>str.translate\<close>\<close>

text \<open>
  \<^verbatim>\<open>string.punctuation\<close> is the 32 ASCII characters
  \<^verbatim>\<open>!"#$%&'()*+,-./\<close> (33 to 47), \<^verbatim>\<open>:;<=>?@\<close> (58 to 64),
  \<^verbatim>\<open>[\]^_`\<close> (91 to 96) and \<^verbatim>\<open>{|}~\<close> (123 to 126).
\<close>

definition string_punctuation :: pystr where
  "string_punctuation = [33..<48] @ [58..<65] @ [91..<97] @ [123..<127]"

text \<open>
  \<^verbatim>\<open>str.maketrans(x, y, z)\<close> maps the characters of \<open>x\<close> to those of \<open>y\<close> at the
  same position, and then every character of \<open>z\<close> to \<^verbatim>\<open>None\<close> (the entries of
  \<open>z\<close> win). The program calls it with \<open>x\<close> and \<open>y\<close> empty.
  \<^verbatim>\<open>str.translate(table)\<close> keeps a character the table has no entry for, drops a character
  mapped to \<^verbatim>\<open>None\<close>, and replaces the others.
\<close>

type_synonym trans_table = "codepoint \<rightharpoonup> codepoint option"

definition maketrans :: "pystr \<Rightarrow> pystr \<Rightarrow> pystr \<Rightarrow> trans_table" where
  "maketrans x y z = map_of (map (\<lambda>c. (c, None)) z @ map (\<lambda>(a, b). (a, Some b)) (zip x y))"

definition translate :: "pystr \<Rightarrow> trans_table \<Rightarrow> pystr" where
  "translate text table =
     concat (map (\<lambda>c. case table c of
                         None \<Rightarrow> [c]
                       | Some None \<Rightarrow> []
                       | Some (Some r) \<Rightarrow> [r]) text)"

subsection \<open>\<^verbatim>\<open>str.split()\<close>\<close>

text \<open>
  Without a separator \<^verbatim>\<open>str.split\<close> splits at runs of whitespace characters, the
  characters for which \<^verbatim>\<open>str.isspace\<close> holds: tab to carriage return, the
  separators 28 to 31, space, U+0085, U+00A0, U+1680, U+2000 to U+200A, U+2028, U+2029,
  U+202F, U+205F and U+3000.
\<close>

definition isspace :: "codepoint \<Rightarrow> bool" where
  "isspace c = ((9 \<le> c \<and> c \<le> 13) \<or> (28 \<le> c \<and> c \<le> 32) \<or> c = 133 \<or> c = 160
     \<or> c = 5760 \<or> (8192 \<le> c \<and> c \<le> 8202) \<or> c = 8232 \<or> c = 8233 \<or> c = 8239
     \<or> c = 8287 \<or> c = 12288)"

text \<open>
  The scanner reads the text once; \<open>cur\<close> is the word read so far. A whitespace
  character ends the current word if there is one, and leading, trailing and repeated
  whitespace gives no empty word.
\<close>

fun split_from :: "pystr \<Rightarrow> pystr \<Rightarrow> pystr list" where
  "split_from cur [] = (if cur = [] then [] else [cur])"
| "split_from cur (c # cs) =
     (if isspace c then (if cur = [] then split_from [] cs else cur # split_from [] cs)
      else split_from (cur @ [c]) cs)"

definition split :: "pystr \<Rightarrow> pystr list" where
  "split text = split_from [] text"

subsection \<open>\<^verbatim>\<open>sorted(..., key=..., reverse=True)\<close> and the slice \<^verbatim>\<open>[:n]\<close>\<close>

text \<open>
  \<^verbatim>\<open>sorted\<close> is stable. With \<^verbatim>\<open>reverse=True\<close> the list is reversed, sorted stably
  in ascending order of the key, and reversed again, so that entries with equal keys
  keep the order they had.
\<close>

definition sorted_reverse :: "('a \<Rightarrow> int) \<Rightarrow> 'a list \<Rightarrow> 'a list" where
  "sorted_reverse key xs = rev (sort_key key (rev xs))"

text \<open>\<^verbatim>\<open>xs[:n]\<close>: the first \<open>n\<close> elements; a negative \<open>n\<close> counts from the end.\<close>

definition slice_to :: "'a list \<Rightarrow> int \<Rightarrow> 'a list" where
  "slice_to xs n = (if 0 \<le> n then take (nat n) xs else take (length xs - nat (- n)) xs)"

subsection \<open>\<^verbatim>\<open>ThreadPoolExecutor.map\<close>\<close>

text \<open>
  \<^verbatim>\<open>executor.map(fn, items)\<close> submits one task per item, in order, and keeps the list
  of their futures. The worker threads finish the tasks in an order the program does not
  choose: the schedule. Each number of the schedule picks, among the tasks not yet run,
  the one to run next. Leaving the \<^verbatim>\<open>with\<close> block joins the pool, so the tasks the
  schedule has not picked are run then. The results are read from the futures in the
  order of submission; reading a future waits for its task.
\<close>

type_synonym schedule = "nat list"

fun run_tasks :: "('a \<Rightarrow> 'b) \<Rightarrow> 'a list \<Rightarrow> schedule \<Rightarrow> nat list \<Rightarrow> 'b option list \<Rightarrow> 'b option list" where
  "run_tasks fn items [] pending futures =
     fold (\<lambda>i fs. fs[i := Some (fn (items ! i))]) pending futures"
| "run_tasks fn items (c # sched) pending futures =
     (if pending = [] then futures
      else let i = pending ! (c mod length pending)
           in run_tasks fn items sched (remove1 i pending) (futures[i := Some (fn (items ! i))]))"

definition executor_map :: "schedule \<Rightarrow> ('a \<Rightarrow> 'b) \<Rightarrow> 'a list \<Rightarrow> 'b list" where
  "executor_map sched fn items =
     (let futures = run_tasks fn items sched [0..<length items] (replicate (length items) None)
      in map (\<lambda>(x, r). case r of Some y \<Rightarrow> y | None \<Rightarrow> fn x) (zip items futures))"

section \<open>The program\<close>

definition remove_punctuation :: "pystr \<Rightarrow> pystr" where
  "remove_punctuation text = translate text (maketrans [] [] string_punctuation)"

definition map_function :: "'k \<Rightarrow> 'k \<times> int" where
  "map_function word = (word, 1)"

text \<open>The loop of \<^verbatim>\<open>shuffle_function\<close> over the pairs, then \<^verbatim>\<open>shuffled.items()\<close>.\<close>

definition shuffle_function :: "('k \<times> 'v) list \<Rightarrow> ('k \<times> 'v list) list" where
  "shuffle_function mapped_values =
     fold (\<lambda>(key, val) shuffled. defaultdict_append shuffled key val) mapped_values []"

definition reduce_function :: "'k \<times> int list \<Rightarrow> 'k \<times> int" where
  "reduce_function key_values = (case key_values of (key, vals) \<Rightarrow> (key, sum_list vals))"

text \<open>
  The value of \<^verbatim>\<open>words\<close> in \<^verbatim>\<open>map_reduce\<close> after the filter: punctuation removed,
  split, words of fewer than 4 characters dropped.
\<close>

definition map_reduce_words :: "pystr \<Rightarrow> pystr list" where
  "map_reduce_words text = filter (\<lambda>word. 4 \<le> length word) (split (remove_punctuation text))"

text \<open>
  \<^verbatim>\<open>map_reduce\<close>; the two schedules are those of its two thread pools.
\<close>

definition map_reduce :: "schedule \<times> schedule \<Rightarrow> pystr \<Rightarrow> (pystr, int) pydict" where
  "map_reduce scheds text =
     (let words = map_reduce_words text;
          mapped_values = executor_map (fst scheds) map_function words;
          shuffled_values = shuffle_function mapped_values;
          reduced_values = executor_map (snd scheds) reduce_function shuffled_values
      in dict_of_pairs reduced_values)"

text \<open>
  The first statement of \<^verbatim>\<open>visualize_top_words\<close>: the entries sorted by count,
  largest first, cut to \<open>top_n\<close>.
\<close>

definition top_words :: "('k, int) pydict \<Rightarrow> int \<Rightarrow> ('k \<times> int) list" where
  "top_words word_freq top_n = slice_to (sorted_reverse snd word_freq) top_n"

text \<open>
  \<^verbatim>\<open>words, frequencies = zip(*sorted_words)\<close>: \<^verbatim>\<open>zip\<close> of no argument yields
  nothing, and unpacking nothing into two names raises \<^verbatim>\<open>ValueError\<close>; of one or
  more pairs it yields the tuple of first components and the tuple of second components.
\<close>

fun unpack_zip :: "('a \<times> 'b) list \<Rightarrow> py_error + 'a list \<times> 'b list" where
  "unpack_zip [] = Inl ValueError"
| "unpack_zip (p # ps) = Inr (map fst (p # ps), map snd (p # ps))"

text \<open>
  What \<^verbatim>\<open>visualize_top_words\<close> shows: the lines it prints and the labels and sizes it
  gives to the pie chart. The drawing itself is matplotlib's.
\<close>

record 'k chart =
  printed :: "('k \<times> int) list"
  labels :: "'k list"
  sizes :: "int list"

definition visualize_top_words :: "('k, int) pydict \<Rightarrow> int \<Rightarrow> py_error + 'k chart" where
  "visualize_top_words word_freq top_n =
     (let sorted_words = top_words word_freq top_n
      in case unpack_zip sorted_words of
           Inl e \<Rightarrow> Inl e
         | Inr (words, frequencies) \<Rightarrow>
             Inr \<lparr>printed = sorted_words, labels = words, sizes = frequencies\<rparr>)"

section \<open>The reference of the round-trip property\<close>

text \<open>
  The specification compares the three stages with a direct single-pass frequency count
  of the tokens, a naive reference implementation. This definition follows the
  specification's words, not the source:
  \<^verbatim>\<open>counts = {}\<close>, then \<^verbatim>\<open>counts[t] = counts.get(t, 0) + 1\<close> for each token.
\<close>

fun dict_get :: "('k, 'v) pydict \<Rightarrow> 'k \<Rightarrow> 'v \<Rightarrow> 'v" where
  "dict_get [] k dflt = dflt"
| "dict_get ((k', v') # d) k dflt = (if k' = k then v' else dict_get d k dflt)"

definition naive_frequency_count :: "'k list \<Rightarrow> ('k, int) pydict" where
  "naive_frequency_count tokens =
     fold (\<lambda>t counts. dict_setitem counts t (dict_get counts t 0 + 1)) tokens []"

section \<open>Properties of the library functions\<close>

subsection \<open>The thread pool returns what a sequential map returns\<close>

text \<open>
  Every future is either not yet run or holds the result of its own task; running one
  more task keeps that, whichever task the schedule picks.
\<close>

lemma future_update_ok:
  assumes "list_all2 (\<lambda>x r. r = None \<or> r = Some (fn x)) items futures"
  shows "list_all2 (\<lambda>x r. r = None \<or> r = Some (fn x)) items (futures[i := Some (fn (items ! i))])"
proof -
  have "list_all2 (\<lambda>x r. r = None \<or> r = Some (fn x)) (items[i := items ! i]) (futures[i := Some (fn (items ! i))])"
    using assms by (intro list_all2_update_cong) simp_all
  then show ?thesis by simp
qed

lemma join_ok:
  "list_all2 (\<lambda>x r. r = None \<or> r = Some (fn x)) items futures \<Longrightarrow>
   list_all2 (\<lambda>x r. r = None \<or> r = Some (fn x)) items
     (fold (\<lambda>i fs. fs[i := Some (fn (items ! i))]) pending futures)"
  by (induction pending arbitrary: futures) (simp_all add: future_update_ok)

lemma run_tasks_ok:
  "list_all2 (\<lambda>x r. r = None \<or> r = Some (fn x)) items futures \<Longrightarrow>
   list_all2 (\<lambda>x r. r = None \<or> r = Some (fn x)) items (run_tasks fn items sched pending futures)"
proof (induction sched arbitrary: pending futures)
  case Nil
  then show ?case by (simp add: join_ok)
next
  case (Cons c sched)
  then show ?case by (simp add: Let_def future_update_ok)
qed

lemma read_futures:
  "list_all2 (\<lambda>x r. r = None \<or> r = Some (fn x)) items futures \<Longrightarrow>
   map (\<lambda>(x, r). case r of Some y \<Rightarrow> y | None \<Rightarrow> fn x) (zip items futures) = map fn items"
  by (induction rule: list_all2_induct) auto

lemma executor_map_eq: "executor_map sched fn items = map fn items"
proof -
  have "list_all2 (\<lambda>x r. r = None \<or> r = Some (fn x)) items (replicate (length items) None)"
    by (simp add: list_all2_conv_all_nth)
  then show ?thesis
    unfolding executor_map_def Let_def by (intro read_futures run_tasks_ok)
qed

subsection \<open>Removing punctuation is deleting characters\<close>

lemma in_string_punctuation:
  "c \<in> set string_punctuation \<longleftrightarrow>
     (33 \<le> c \<and> c \<le> 47) \<or> (58 \<le> c \<and> c \<le> 64) \<or> (91 \<le> c \<and> c \<le> 96) \<or> (123 \<le> c \<and> c \<le> 126)"
  unfolding string_punctuation_def set_append set_upt Un_iff atLeastLessThan_iff by arith

lemma maketrans_delete:
  "maketrans [] [] z c = (if c \<in> set z then Some None else None)"
  by (induction z) (simp_all add: maketrans_def)

lemma remove_punctuation_filter:
  "remove_punctuation text = filter (\<lambda>c. c \<notin> set string_punctuation) text"
  by (induction "text") (simp_all add: remove_punctuation_def translate_def maketrans_delete)

subsection \<open>Grouping with the \<^verbatim>\<open>defaultdict\<close>\<close>

lemma defaultdict_append_new:
  "k \<notin> set ks \<Longrightarrow>
   defaultdict_append (map (\<lambda>k'. (k', g k')) ks) k v = map (\<lambda>k'. (k', g k')) ks @ [(k, [v])]"
  by (induction ks) auto

lemma defaultdict_append_old:
  "k \<in> set ks \<Longrightarrow> distinct ks \<Longrightarrow>
   defaultdict_append (map (\<lambda>k'. (k', g k')) ks) k v =
     map (\<lambda>k'. (k', if k' = k then g k' @ [v] else g k')) ks"
  by (induction ks) auto

lemma shuffle_function_snoc:
  "shuffle_function (ps @ [(k, v)]) = defaultdict_append (shuffle_function ps) k v"
  by (simp add: shuffle_function_def)

lemma shuffle_function_groups:
  "shuffle_function ps =
     map (\<lambda>k. (k, map snd (filter (\<lambda>p. fst p = k) ps))) (rev (remdups (rev (map fst ps))))"
proof (induction ps rule: rev_induct)
  case Nil
  show ?case by (simp add: shuffle_function_def)
next
  case (snoc p ps)
  obtain k v where p: "p = (k, v)" by (cases p)
  let ?ks = "rev (remdups (rev (map fst ps)))"
  let ?g = "\<lambda>k. map snd (filter (\<lambda>p. fst p = k) ps)"
  have d: "distinct ?ks" by simp
  show ?case
  proof (cases "k \<in> set (map fst ps)")
    case True
    then have "k \<in> set ?ks" by simp
    from defaultdict_append_old [OF this d, of ?g v] True snoc.IH
    show ?thesis by (simp add: p shuffle_function_snoc cong: map_cong)
  next
    case False
    then have nk: "k \<notin> set ?ks" by simp
    have "filter (\<lambda>p. fst p = k) ps = []" using False by (auto simp: filter_empty_conv)
    with defaultdict_append_new [OF nk, of ?g v] False snoc.IH
    show ?thesis by (auto simp add: p shuffle_function_snoc)
  qed
qed

subsection \<open>A dict built from pairs with distinct keys is those pairs\<close>

lemma dict_setitem_new: "k \<notin> fst ` set d \<Longrightarrow> dict_setitem d k v = d @ [(k, v)]"
  by (induction d) auto

lemma fold_dict_setitem_distinct:
  "distinct (map fst (d @ ps)) \<Longrightarrow> fold (\<lambda>(k, v) d. dict_setitem d k v) ps d = d @ ps"
proof (induction ps arbitrary: d)
  case Nil
  show ?case by simp
next
  case (Cons p ps)
  obtain k v where p: "p = (k, v)" by (cases p)
  from Cons.prems have "k \<notin> fst ` set d" by (auto simp: p)
  then have "dict_setitem d k v = d @ [(k, v)]" by (rule dict_setitem_new)
  moreover from Cons.prems have "distinct (map fst ((d @ [(k, v)]) @ ps))" by (simp add: p)
  ultimately show ?case using Cons.IH [of "d @ [(k, v)]"] by (simp add: p)
qed

lemma dict_of_pairs_distinct: "distinct (map fst ps) \<Longrightarrow> dict_of_pairs ps = ps"
  using fold_dict_setitem_distinct [of "[]" ps] by (simp add: dict_of_pairs_def)

section \<open>Properties of the program\<close>

lemma keys_shuffle_function: "map fst (shuffle_function ps) = rev (remdups (rev (map fst ps)))"
  by (simp add: shuffle_function_groups comp_def)

lemma keys_reduce_function: "map fst (map reduce_function gs) = map fst gs"
  by (induction gs) (auto simp: reduce_function_def)

lemma map_reduce_sequential:
  "map_reduce scheds text =
     map reduce_function (shuffle_function (map map_function (map_reduce_words text)))"
proof -
  have "distinct (map fst (map reduce_function (shuffle_function (map map_function (map_reduce_words text)))))"
    by (simp only: keys_reduce_function keys_shuffle_function) simp
  then show ?thesis
    by (simp add: map_reduce_def executor_map_eq dict_of_pairs_distinct)
qed

subsection \<open>Totals\<close>

lemma sum_defaultdict_append:
  "sum_list (concat (map snd (defaultdict_append d k v))) = sum_list (concat (map snd d)) + (v::int)"
  by (induction d) auto

lemma sum_shuffle_function:
  "sum_list (concat (map snd (shuffle_function ps))) = sum_list (map snd ps :: int list)"
  by (induction ps rule: rev_induct)
     (auto simp: shuffle_function_snoc sum_defaultdict_append, simp add: shuffle_function_def)

lemma sum_reduce_function:
  "sum_list (map snd (map reduce_function gs)) = sum_list (concat (map snd gs))"
  by (induction gs) (auto simp: reduce_function_def)

lemma sum_map_function: "sum_list (map snd (map map_function ws)) = int (length ws)"
  by (induction ws) (auto simp: map_function_def)

lemma sum_map_reduce:
  "sum_list (map snd (map_reduce scheds text)) = int (length (map_reduce_words text))"
  by (simp only: map_reduce_sequential sum_reduce_function sum_shuffle_function sum_map_function)

lemma reduce_defaultdict_append:
  "map reduce_function (defaultdict_append d k 1) =
     dict_setitem (map reduce_function d) k (dict_get (map reduce_function d) k 0 + 1)"
  by (induction d) (auto simp: reduce_function_def)

lemma naive_frequency_count_snoc:
  "naive_frequency_count (ts @ [t]) =
     dict_setitem (naive_frequency_count ts) t (dict_get (naive_frequency_count ts) t 0 + 1)"
  by (simp add: naive_frequency_count_def)

lemma stages_eq_naive:
  "map reduce_function (shuffle_function (map map_function tokens)) = naive_frequency_count tokens"
proof (induction tokens rule: rev_induct)
  case Nil
  show ?case by (simp add: shuffle_function_def naive_frequency_count_def)
next
  case (snoc t ts)
  have "map reduce_function (shuffle_function (map map_function (ts @ [t]))) =
        map reduce_function (defaultdict_append (shuffle_function (map map_function ts)) t 1)"
    by (simp add: shuffle_function_def map_function_def)
  then show ?case
    by (simp only: reduce_defaultdict_append snoc.IH naive_frequency_count_snoc)
qed

lemma total_of_word:
  "sum_list (map snd (filter (\<lambda>p. fst p = k) (map map_function ws))) = int (count_list ws k)"
  by (induction ws) (auto simp: map_function_def)

lemma map_reduce_counts:
  "map_reduce scheds text =
     map (\<lambda>w. (w, int (count_list (map_reduce_words text) w)))
         (rev (remdups (rev (map_reduce_words text))))"
proof -
  have "map fst (map map_function ws) = ws" for ws :: "pystr list"
    by (induction ws) (auto simp: map_function_def)
  then show ?thesis
    by (simp add: map_reduce_sequential shuffle_function_groups reduce_function_def total_of_word)
qed

lemma map_of_tabulate:
  "map_of (map (\<lambda>k. (k, f k)) ks) w = (if w \<in> set ks then Some (f w) else None)"
  by (induction ks) auto

lemma lookup_map_reduce:
  "map_of (map_reduce scheds text) w =
     (if w \<in> set (map_reduce_words text) then Some (int (count_list (map_reduce_words text) w))
      else None)"
  by (simp add: map_reduce_counts map_of_tabulate)

lemma lookup_naive_frequency_count:
  "map_of (naive_frequency_count ts) w =
     (if w \<in> set ts then Some (int (count_list ts w)) else None)"
proof -
  have "map fst (map map_function ws) = ws" for ws :: "'a list"
    by (induction ws) (auto simp: map_function_def)
  then have "naive_frequency_count ts = map (\<lambda>w. (w, int (count_list ts w))) (rev (remdups (rev ts)))"
    by (simp add: stages_eq_naive [symmetric] shuffle_function_groups reduce_function_def total_of_word)
  then show ?thesis by (simp add: map_of_tabulate)
qed

subsection \<open>Splitting at whitespace\<close>

lemma split_from_space:
  "isspace c \<Longrightarrow> split_from cur (a @ c # b) = split_from cur a @ split_from [] b"
  by (induction a arbitrary: cur) auto

lemma split_from_word:
  "\<forall>c\<in>set w. \<not> isspace c \<Longrightarrow> split_from cur w = (if cur @ w = [] then [] else [cur @ w])"
  by (induction w arbitrary: cur) auto

lemma split_at_space: "isspace c \<Longrightarrow> split (a @ c # b) = split a @ split b"
  by (simp add: split_def split_from_space)

lemma split_word: "w \<noteq> [] \<Longrightarrow> \<forall>c\<in>set w. \<not> isspace c \<Longrightarrow> split w = [w]"
  by (simp add: split_def split_from_word)

lemma split_from_tokens:
  "w \<in> set (split_from cur t) \<Longrightarrow> \<forall>c\<in>set cur. \<not> isspace c \<Longrightarrow>
   w \<noteq> [] \<and> (\<forall>c\<in>set w. \<not> isspace c) \<and> subseq w (cur @ t)"
proof (induction t arbitrary: cur)
  case Nil
  from Nil.prems(1) have "cur \<noteq> []" "w = cur" by (simp_all split: if_splits)
  with Nil.prems(2) show ?case by simp
next
  case (Cons c cs)
  show ?case
  proof (cases "isspace c")
    case True
    have later: ?thesis if "w \<in> set (split_from [] cs)"
    proof -
      from Cons.IH [OF that] have "w \<noteq> []" "\<forall>c\<in>set w. \<not> isspace c" "subseq w cs" by simp_all
      moreover from \<open>subseq w cs\<close> have "subseq w (cur @ c # cs)"
        by (intro list_emb_append2 list_emb_Cons)
      ultimately show ?thesis by simp
    qed
    show ?thesis
    proof (cases "cur = []")
      case True
      with Cons.prems(1) \<open>isspace c\<close> have "w \<in> set (split_from [] cs)" by simp
      then show ?thesis by (rule later)
    next
      case False
      with Cons.prems(1) \<open>isspace c\<close> have "w = cur \<or> w \<in> set (split_from [] cs)" by simp
      then show ?thesis
      proof
        assume "w = cur"
        with False Cons.prems(2) show ?thesis by (simp add: subseq_rev_drop_many)
      next
        assume "w \<in> set (split_from [] cs)"
        then show ?thesis by (rule later)
      qed
    qed
  next
    case False
    with Cons.prems(1) have 1: "w \<in> set (split_from (cur @ [c]) cs)" by simp
    from Cons.prems(2) False have 2: "\<forall>x\<in>set (cur @ [c]). \<not> isspace x" by simp
    from Cons.IH [OF 1 2] show ?thesis by simp
  qed
qed

lemma split_tokens:
  "w \<in> set (split t) \<Longrightarrow> w \<noteq> [] \<and> (\<forall>c\<in>set w. \<not> isspace c) \<and> subseq w t"
  using split_from_tokens [of w "[]" t] by (simp add: split_def)

lemma concat_split_from:
  "concat (split_from cur t) = cur @ filter (\<lambda>c. \<not> isspace c) t"
  by (induction t arbitrary: cur) auto

lemma concat_split: "concat (split t) = filter (\<lambda>c. \<not> isspace c) t"
  by (simp add: split_def concat_split_from)

lemma subseq_remove_punctuation: "subseq (remove_punctuation t) t"
  by (simp add: remove_punctuation_filter)

subsection \<open>Sorting by count, largest first\<close>

lemma mset_sorted_reverse: "mset (sorted_reverse key xs) = mset xs"
  by (simp add: sorted_reverse_def)

lemma sorted_sorted_reverse: "sorted_wrt (\<lambda>a b. key b \<le> key a) (sorted_reverse key xs)"
proof -
  have "sorted (map key (sort_key key (rev xs)))" by simp
  then have "sorted_wrt (\<lambda>a b. key a \<le> key b) (sort_key key (rev xs))"
    by (simp add: sorted_map)
  then show ?thesis by (simp add: sorted_reverse_def sorted_wrt_rev)
qed

lemma stable_sorted_reverse:
  "filter (\<lambda>y. key y = k) (sorted_reverse key xs) = filter (\<lambda>y. key y = k) xs"
proof -
  have "filter (\<lambda>y. key y = k) (sorted_reverse key xs) =
        rev (filter (\<lambda>y. key y = k) (sort_key key (rev xs)))"
    by (simp add: sorted_reverse_def rev_filter)
  also have "\<dots> = rev (filter (\<lambda>y. key y = k) (rev xs))" by (simp only: sort_key_stable)
  finally show ?thesis by (simp add: rev_filter)
qed

lemma slice_to_all: "int (length xs) \<le> n \<Longrightarrow> slice_to xs n = xs"
  by (simp add: slice_to_def)

subsection \<open>Keys, empty inputs and the untruncated ranking\<close>

lemma remdups_snoc: "remdups (xs @ [k]) = filter (\<lambda>x. x \<noteq> k) (remdups xs) @ [k]"
  by (induction xs) auto

lemma keys_shuffle_function_Cons:
  "map fst (shuffle_function (p # ps)) =
     fst p # filter (\<lambda>k. k \<noteq> fst p) (map fst (shuffle_function ps))"
  by (simp add: keys_shuffle_function remdups_snoc rev_filter)

lemma map_reduce_words_empty: "map_reduce_words [] = []"
  by (simp add: map_reduce_words_def remove_punctuation_filter split_def)

lemma map_reduce_no_words: "map_reduce_words t = [] \<Longrightarrow> map_reduce scheds t = []"
  by (simp add: map_reduce_counts)

lemma top_words_empty: "top_words [] n = []"
  by (simp add: top_words_def sorted_reverse_def slice_to_def)

lemma keys_map_reduce: "set (map fst (map_reduce scheds t)) = set (map_reduce_words t)"
  by (simp add: map_reduce_counts comp_def)

lemma split_empty: "split [] = []"
  by (simp add: split_def)

lemma remove_punctuation_fuses:
  assumes "p \<in> set string_punctuation" and "\<forall>c\<in>set (a @ b). c \<notin> set string_punctuation"
  shows "remove_punctuation (a @ p # b) = a @ b"
  using assms by (simp add: remove_punctuation_filter ball_Un)

lemma dict_size: "distinct (map fst d) \<Longrightarrow> card (fst ` set d) = length d"
  using distinct_card [of "map fst d"] by simp

lemma top_words_all:
  "int (length d) \<le> n \<Longrightarrow> top_words d n = sorted_reverse snd d"
proof -
  have "length (sorted_reverse snd d) = length d" by (simp add: sorted_reverse_def)
  then show "int (length d) \<le> n \<Longrightarrow> top_words d n = sorted_reverse snd d"
    by (simp add: top_words_def slice_to_all)
qed

section \<open>Worked examples\<close>

lemma example_words:
  "map_reduce_words (str_of ''apple apple banana grape grape grape'') =
     [str_of ''apple'', str_of ''apple'', str_of ''banana'',
      str_of ''grape'', str_of ''grape'', str_of ''grape'']"
  by (simp add: map_reduce_words_def remove_punctuation_filter in_string_punctuation split_def
      isspace_def str_of_def)

lemma example_fused_words:
  "split (remove_punctuation (str_of ''good-bye, my good-bye'')) =
     [str_of ''goodbye'', str_of ''my'', str_of ''goodbye'']"
  by (simp add: remove_punctuation_filter in_string_punctuation split_def isspace_def str_of_def)

lemma example_case_words:
  "map_reduce_words (str_of ''Apple apple APPLE apple'') =
     [str_of ''Apple'', str_of ''apple'', str_of ''APPLE'', str_of ''apple'']"
  by (simp add: map_reduce_words_def remove_punctuation_filter in_string_punctuation split_def
      isspace_def str_of_def)

lemma example_upper_words:
  "map_reduce_words (str_of ''APPLE APPLE'') = [str_of ''APPLE'', str_of ''APPLE'']"
  by (simp add: map_reduce_words_def remove_punctuation_filter in_string_punctuation split_def
      isspace_def str_of_def)

lemma example_short_words:
  "split (remove_punctuation (str_of ''The cat sat. The cat ran!'')) =
     [str_of ''The'', str_of ''cat'', str_of ''sat'', str_of ''The'', str_of ''cat'', str_of ''ran'']"
  by (simp add: remove_punctuation_filter in_string_punctuation split_def isspace_def str_of_def)

section \<open>The claims\<close>

text \<open>
  Claim C1. For every input text and every schedule of the two thread pools, the totals
  of the entries that \<^verbatim>\<open>map_reduce\<close> returns add up to the number of tokens that
  pass the length filter: the words of 4 or more characters among those obtained by
  deleting the punctuation characters and splitting at whitespace. The minimum length
  is the constant 4 of the source.
\<close>

theorem map_reduce_total_is_token_count:
  "sum_list (map snd (map_reduce scheds text)) =
     int (length (filter (\<lambda>w. 4 \<le> length w)
                    (split (filter (\<lambda>c. c \<notin> set string_punctuation) text))))"
  by (simp add: sum_map_reduce map_reduce_words_def remove_punctuation_filter)

text \<open>
  Claim C2. For every sequence of tokens, mapping each token with \<^verbatim>\<open>map_function\<close>,
  grouping the pairs with \<^verbatim>\<open>shuffle_function\<close> and reducing each group with
  \<^verbatim>\<open>reduce_function\<close> gives the entries of the naive single-pass frequency count,
  in the same order; so does the dict built from them; and looked up at a word they give
  the number of times the word occurs among the tokens, and nothing for any other word.
\<close>

theorem stages_equal_naive_frequency_count:
  "map reduce_function (shuffle_function (map map_function tokens)) = naive_frequency_count tokens
   \<and> dict_of_pairs (map reduce_function (shuffle_function (map map_function tokens)))
       = naive_frequency_count tokens
   \<and> map_of (map reduce_function (shuffle_function (map map_function tokens)))
       = (\<lambda>w. if w \<in> set tokens then Some (int (count_list tokens w)) else None)"
proof -
  have "distinct (map fst (map reduce_function (shuffle_function (map map_function tokens))))"
    by (simp only: keys_reduce_function keys_shuffle_function) simp
  then have "dict_of_pairs (map reduce_function (shuffle_function (map map_function tokens)))
      = map reduce_function (shuffle_function (map map_function tokens))"
    by (rule dict_of_pairs_distinct)
  moreover have "map_of (naive_frequency_count tokens)
       = (\<lambda>w. if w \<in> set tokens then Some (int (count_list tokens w)) else None)"
    by (rule ext) (rule lookup_naive_frequency_count)
  ultimately show ?thesis by (simp add: stages_eq_naive)
qed

text \<open>
  Claim C3. For every input text the tokens are obtained in three steps. First every
  punctuation character is deleted, and nothing is put in its place: two words joined
  only by a punctuation character \<open>p\<close> become one token. Then the text is split at
  runs of whitespace: the empty text has no word, a whitespace character \<open>s\<close>
  separates the words before it from the words after it and is part of none, and a
  non-empty text without whitespace is one word. Then the words of fewer than 4
  characters are dropped: the words the pipeline counts are exactly the split words of
  length 4 or more.
\<close>

theorem tokenization:
  assumes "p \<in> set string_punctuation"
    and "isspace s"
    and "a @ b \<noteq> []"
    and "\<forall>c\<in>set (a @ b). \<not> isspace c \<and> c \<notin> set string_punctuation"
  shows "remove_punctuation text = filter (\<lambda>c. c \<notin> set string_punctuation) text
    \<and> split (remove_punctuation (a @ p # b)) = [a @ b]
    \<and> split [] = [] \<and> split (u @ s # v) = split u @ split v \<and> split (a @ b) = [a @ b]
    \<and> map_reduce_words text =
        filter (\<lambda>w. 4 \<le> length w) (split (filter (\<lambda>c. c \<notin> set string_punctuation) text))
    \<and> set (map fst (map_reduce scheds text)) =
        {w \<in> set (split (filter (\<lambda>c. c \<notin> set string_punctuation) text)). 4 \<le> length w}"
proof -
  from assms(4) have np: "\<forall>c\<in>set (a @ b). c \<notin> set string_punctuation"
    and ns: "\<forall>c\<in>set (a @ b). \<not> isspace c" by blast+
  have w: "split (a @ b) = [a @ b]" using assms(3) ns by (rule split_word)
  have "remove_punctuation (a @ p # b) = a @ b"
    using assms(1) np by (rule remove_punctuation_fuses)
  with w have "split (remove_punctuation (a @ p # b)) = [a @ b]" by simp
  moreover have "split (u @ s # v) = split u @ split v" using assms(2) by (rule split_at_space)
  moreover have "set (map fst (map_reduce scheds text)) =
        {w \<in> set (split (filter (\<lambda>c. c \<notin> set string_punctuation) text)). 4 \<le> length w}"
    by (simp only: keys_map_reduce) (simp add: map_reduce_words_def remove_punctuation_filter)
  moreover have "map_reduce_words text =
        filter (\<lambda>w. 4 \<le> length w) (split (filter (\<lambda>c. c \<notin> set string_punctuation) text))"
    by (simp add: map_reduce_words_def remove_punctuation_filter)
  ultimately show ?thesis
    using w by (simp add: remove_punctuation_filter split_empty)
qed

text \<open>
  The theorem at the text \<^verbatim>\<open>good-bye, my good-bye\<close>: the hyphen (45) and the comma
  are deleted, \<^verbatim>\<open>good-bye\<close> fuses into \<^verbatim>\<open>goodbye\<close>, the space (32) separates
  the words, and \<^verbatim>\<open>my\<close> is dropped.
\<close>

theorem tokenization_witness:
  "45 \<in> set string_punctuation \<and> isspace 32 \<and> str_of ''good'' @ str_of ''bye'' \<noteq> []
   \<and> split (remove_punctuation (str_of ''good-bye'')) = [str_of ''goodbye'']
   \<and> split (str_of ''to be'') = split (str_of ''to'') @ split (str_of ''be'')
   \<and> map_reduce_words (str_of ''good-bye, my good-bye'') = [str_of ''goodbye'', str_of ''goodbye'']
   \<and> set (map fst (map_reduce ([2, 0], [1]) (str_of ''good-bye, my good-bye''))) = {str_of ''goodbye''}"
proof -
  have h1: "45 \<in> set string_punctuation" by (simp add: in_string_punctuation)
  have h2: "isspace 32" by (simp add: isspace_def)
  have h3: "str_of ''good'' @ str_of ''bye'' \<noteq> []" by (simp add: str_of_def)
  have h4: "\<forall>c\<in>set (str_of ''good'' @ str_of ''bye''). \<not> isspace c \<and> c \<notin> set string_punctuation"
    by (simp add: str_of_def isspace_def in_string_punctuation)
  note t = tokenization [OF h1 h2 h3 h4, of "str_of ''good-bye, my good-bye''"
      "str_of ''to''" "str_of ''be''" "([2, 0], [1])", folded remove_punctuation_filter]
  have e1: "str_of ''good'' @ 45 # str_of ''bye'' = str_of ''good-bye''"
    and e2: "str_of ''good'' @ str_of ''bye'' = str_of ''goodbye''"
    and e3: "str_of ''to'' @ 32 # str_of ''be'' = str_of ''to be''"
    by (simp_all add: str_of_def)
  have e4: "{w \<in> set [str_of ''goodbye'', str_of ''my'', str_of ''goodbye'']. 4 \<le> length w}
      = {str_of ''goodbye''}"
    by (auto simp: str_of_def)
  from t have "split (remove_punctuation (str_of ''good-bye'')) = [str_of ''goodbye'']"
    by (simp only: e1 e2)
  moreover from t have "split (str_of ''to be'') = split (str_of ''to'') @ split (str_of ''be'')"
    by (simp only: e3)
  moreover from t have "map_reduce_words (str_of ''good-bye, my good-bye'')
      = [str_of ''goodbye'', str_of ''goodbye'']"
    by (simp only: example_fused_words) (simp add: str_of_def)
  moreover from t have "set (map fst (map_reduce ([2, 0], [1]) (str_of ''good-bye, my good-bye'')))
      = {str_of ''goodbye''}"
    by (simp only: example_fused_words e4)
  ultimately show ?thesis using h1 h2 h3 by simp
qed

text \<open>
  Claim C4. No stage changes a character, for every input text and every schedule. The
  keys of the result are distinct and are exactly the words that pass the filter; every
  key is one of the split words of the text, so its characters are characters of the
  input text, in the input's order and case. Every such word has the number of its own
  occurrences as total, and a string that is not one of these words (a lowercased
  variant that does not occur, say) is no key. In particular two different tokens, and
  so two tokens that differ only in the case of their letters, are two keys, each with
  its own count.
\<close>

theorem words_keep_their_case:
  "distinct (map fst (map_reduce scheds text))
   \<and> set (map fst (map_reduce scheds text)) = set (map_reduce_words text)
   \<and> (\<forall>k\<in>set (map fst (map_reduce scheds text)).
         k \<in> set (split (remove_punctuation text)) \<and> subseq k text)
   \<and> (\<forall>w\<in>set (map_reduce_words text).
         map_of (map_reduce scheds text) w = Some (int (count_list (map_reduce_words text) w)))
   \<and> (\<forall>w. w \<notin> set (map_reduce_words text) \<longrightarrow> map_of (map_reduce scheds text) w = None)
   \<and> (w1 \<in> set (map_reduce_words text) \<longrightarrow> w2 \<in> set (map_reduce_words text) \<longrightarrow> w1 \<noteq> w2 \<longrightarrow>
         map_of (map_reduce scheds text) w1 = Some (int (count_list (map_reduce_words text) w1))
       \<and> map_of (map_reduce scheds text) w2 = Some (int (count_list (map_reduce_words text) w2)))"
proof -
  have "k \<in> set (split (remove_punctuation text)) \<and> subseq k text"
    if "k \<in> set (map fst (map_reduce scheds text))" for k
  proof -
    from that have "k \<in> set (map_reduce_words text)" by (simp only: keys_map_reduce)
    then have k: "k \<in> set (split (remove_punctuation text))" by (simp add: map_reduce_words_def)
    then have "subseq k (remove_punctuation text)" by (simp add: split_tokens)
    then have "subseq k text"
      using subseq_remove_punctuation [of "text"] by (rule subseq_order.trans)
    with k show ?thesis by simp
  qed
  then have keys: "\<forall>k\<in>set (map fst (map_reduce scheds text)).
      k \<in> set (split (remove_punctuation text)) \<and> subseq k text" by blast
  have d: "distinct (map fst (map_reduce scheds text))"
    by (simp add: map_reduce_counts comp_def)
  have s: "set (map fst (map_reduce scheds text)) = set (map_reduce_words text)"
    by (rule keys_map_reduce)
  have l: "map_of (map_reduce scheds text) w =
      (if w \<in> set (map_reduce_words text)
       then Some (int (count_list (map_reduce_words text) w)) else None)" for w
    by (rule lookup_map_reduce)
  show ?thesis
  proof (intro conjI)
    show "distinct (map fst (map_reduce scheds text))" by (rule d)
    show "set (map fst (map_reduce scheds text)) = set (map_reduce_words text)" by (rule s)
    show "\<forall>k\<in>set (map fst (map_reduce scheds text)).
      k \<in> set (split (remove_punctuation text)) \<and> subseq k text" by (rule keys)
    show "\<forall>w\<in>set (map_reduce_words text).
      map_of (map_reduce scheds text) w = Some (int (count_list (map_reduce_words text) w))"
      by (simp add: l)
    show "\<forall>w. w \<notin> set (map_reduce_words text) \<longrightarrow> map_of (map_reduce scheds text) w = None"
      by (simp add: l)
    show "w1 \<in> set (map_reduce_words text) \<longrightarrow> w2 \<in> set (map_reduce_words text) \<longrightarrow> w1 \<noteq> w2 \<longrightarrow>
         map_of (map_reduce scheds text) w1 = Some (int (count_list (map_reduce_words text) w1))
       \<and> map_of (map_reduce scheds text) w2 = Some (int (count_list (map_reduce_words text) w2))"
      by (simp add: l)
  qed
qed

text \<open>
  The theorem at the text \<^verbatim>\<open>Apple apple APPLE apple\<close>: \<^verbatim>\<open>Apple\<close> is counted
  once and \<^verbatim>\<open>apple\<close> twice, and the key \<^verbatim>\<open>APPLE\<close> is in the text as it stands.
  At the text \<^verbatim>\<open>APPLE APPLE\<close>, with one distinct token: the only key is
  \<^verbatim>\<open>APPLE\<close>, with total 2, and \<^verbatim>\<open>apple\<close> is no key.
\<close>

theorem words_keep_their_case_witness:
  "str_of ''Apple'' \<noteq> str_of ''apple''
   \<and> map_of (map_reduce ([1], [0, 5]) (str_of ''Apple apple APPLE apple'')) (str_of ''Apple'') = Some 1
   \<and> map_of (map_reduce ([1], [0, 5]) (str_of ''Apple apple APPLE apple'')) (str_of ''apple'') = Some 2
   \<and> subseq (str_of ''APPLE'') (str_of ''Apple apple APPLE apple'')
   \<and> set (map fst (map_reduce ([1], [0, 5]) (str_of ''APPLE APPLE''))) = {str_of ''APPLE''}
   \<and> map_of (map_reduce ([1], [0, 5]) (str_of ''APPLE APPLE'')) (str_of ''APPLE'') = Some 2
   \<and> map_of (map_reduce ([1], [0, 5]) (str_of ''APPLE APPLE'')) (str_of ''apple'') = None"
proof -
  let ?T = "str_of ''Apple apple APPLE apple''" and ?U = "str_of ''APPLE APPLE''"
  let ?s = "([1], [0, 5]) :: schedule \<times> schedule"
  have h1: "str_of ''Apple'' \<in> set (map_reduce_words ?T)"
    and h2: "str_of ''apple'' \<in> set (map_reduce_words ?T)"
    by (simp_all add: example_case_words)
  have h3: "str_of ''Apple'' \<noteq> str_of ''apple''" by (simp add: str_of_def)
  note t = words_keep_their_case [of ?s ?T "str_of ''Apple''" "str_of ''apple''"]
  note u = words_keep_their_case [of ?s ?U "str_of ''APPLE''" "str_of ''apple''"]
  note t_keys = t [THEN conjunct2, THEN conjunct2, THEN conjunct1]
  note t_pair = t [THEN conjunct2, THEN conjunct2, THEN conjunct2, THEN conjunct2, THEN conjunct2,
      rule_format, OF h1 h2 h3]
  note u_set = u [THEN conjunct2, THEN conjunct1]
  note u_in = u [THEN conjunct2, THEN conjunct2, THEN conjunct2, THEN conjunct1]
  note u_out = u [THEN conjunct2, THEN conjunct2, THEN conjunct2, THEN conjunct2, THEN conjunct1]
  have c1: "count_list [str_of ''Apple'', str_of ''apple'', str_of ''APPLE'', str_of ''apple'']
      (str_of ''Apple'') = 1"
    and c2: "count_list [str_of ''Apple'', str_of ''apple'', str_of ''APPLE'', str_of ''apple'']
      (str_of ''apple'') = 2"
    and c3: "count_list [str_of ''APPLE'', str_of ''APPLE''] (str_of ''APPLE'') = 2"
    by (simp_all add: str_of_def)
  have k: "str_of ''APPLE'' \<in> set (map fst (map_reduce ?s ?T))"
    by (simp only: keys_map_reduce example_case_words) simp
  from t_keys k have a: "subseq (str_of ''APPLE'') ?T" by blast
  from t_pair have b:
    "map_of (map_reduce ?s ?T) (str_of ''Apple'') = Some 1"
    "map_of (map_reduce ?s ?T) (str_of ''apple'') = Some 2"
    by (simp_all only: example_case_words c1 c2) simp_all
  from u_set have c: "set (map fst (map_reduce ?s ?U)) = {str_of ''APPLE''}"
    by (simp only: example_upper_words) simp
  have i: "str_of ''APPLE'' \<in> set (map_reduce_words ?U)" by (simp add: example_upper_words)
  have o: "str_of ''apple'' \<notin> set (map_reduce_words ?U)"
    by (simp only: example_upper_words) (simp add: str_of_def)
  from u_in i have "map_of (map_reduce ?s ?U) (str_of ''APPLE'')
      = Some (int (count_list (map_reduce_words ?U) (str_of ''APPLE'')))" by blast
  then have e: "map_of (map_reduce ?s ?U) (str_of ''APPLE'') = Some 2"
    by (simp only: example_upper_words c3) simp
  from u_out o have f: "map_of (map_reduce ?s ?U) (str_of ''apple'') = None" by blast
  from h3 a b c e f show ?thesis by (intro conjI)
qed

text \<open>
  Claim C5. When no word of the text passes the length filter, \<^verbatim>\<open>map_reduce\<close>
  returns the empty dict and ranking it gives the empty list, for every \<open>top_n\<close>;
  in particular for the empty text. Neither function has a failing branch: the only
  statement of the program that raises on an empty dict is the unpacking in
  \<^verbatim>\<open>visualize_top_words\<close>, after the ranking.
\<close>

theorem no_words_empty_ranking:
  assumes "\<forall>w\<in>set (split (remove_punctuation text)). length w < 4"
  shows "map_reduce scheds text = [] \<and> top_words (map_reduce scheds text) top_n = []
    \<and> map_reduce scheds [] = [] \<and> top_words (map_reduce scheds []) top_n = []"
proof -
  from assms have "map_reduce_words text = []"
    by (auto simp: map_reduce_words_def filter_empty_conv)
  then have "map_reduce scheds text = []" by (rule map_reduce_no_words)
  moreover have "map_reduce scheds [] = []"
    using map_reduce_words_empty by (rule map_reduce_no_words)
  ultimately show ?thesis by (simp add: top_words_empty)
qed

text \<open>
  The theorem at the text \<^verbatim>\<open>The cat sat. The cat ran!\<close>, whose six words have three
  characters each.
\<close>

theorem no_words_empty_ranking_witness:
  "map_reduce ([], []) (str_of ''The cat sat. The cat ran!'') = []
   \<and> top_words (map_reduce ([], []) (str_of ''The cat sat. The cat ran!'')) 15 = []
   \<and> map_reduce ([], []) [] = [] \<and> top_words (map_reduce ([], []) []) 15 = []"
proof -
  have h: "\<forall>w\<in>set (split (remove_punctuation (str_of ''The cat sat. The cat ran!''))). length w < 4"
    by (simp only: example_short_words) (simp add: str_of_def)
  show ?thesis by (rule no_words_empty_ranking [OF h])
qed

text \<open>
  Claim C6. For every dict of word counts (its keys are distinct) and every \<open>top_n\<close>
  greater than the number of its words, the ranking truncates nothing: it is the whole
  sorted list, it has as many entries as the dict has words, the same entries and the
  same words, each once, and the counts never increase along it.
\<close>

theorem top_words_beyond_size:
  assumes "distinct (map fst word_freq)"
    and "int (card (fst ` set word_freq)) < top_n"
  shows "top_words word_freq top_n = sorted_reverse snd word_freq
    \<and> length (top_words word_freq top_n) = card (fst ` set word_freq)
    \<and> mset (top_words word_freq top_n) = mset word_freq
    \<and> set (map fst (top_words word_freq top_n)) = fst ` set word_freq
    \<and> distinct (map fst (top_words word_freq top_n))
    \<and> sorted_wrt (\<lambda>a b. snd b \<le> snd a) (top_words word_freq top_n)"
proof -
  from assms have n: "int (length word_freq) \<le> top_n" by (simp add: dict_size)
  then have t: "top_words word_freq top_n = sorted_reverse snd word_freq" by (rule top_words_all)
  have m: "mset (sorted_reverse snd word_freq) = mset word_freq" by (rule mset_sorted_reverse)
  then have "mset (map fst (sorted_reverse snd word_freq)) = mset (map fst word_freq)" by simp
  then have "distinct (map fst (sorted_reverse snd word_freq))"
    using assms(1) by (metis mset_eq_imp_distinct_iff)
  moreover from m have "set (sorted_reverse snd word_freq) = set word_freq" by (rule mset_eq_setD)
  moreover from m have "length (sorted_reverse snd word_freq) = length word_freq"
    by (rule mset_eq_length)
  ultimately show ?thesis
    using t m assms(1) sorted_sorted_reverse [of snd word_freq] by (simp add: dict_size)
qed

text \<open>The theorem at the dict apple 2, banana 1, grape 3 with \<open>top_n = 15\<close>.\<close>

theorem top_words_beyond_size_witness:
  "distinct (map fst [(str_of ''apple'', 2::int), (str_of ''banana'', 1), (str_of ''grape'', 3)])
   \<and> top_words [(str_of ''apple'', 2), (str_of ''banana'', 1), (str_of ''grape'', 3)] 15
       = [(str_of ''grape'', 3), (str_of ''apple'', 2), (str_of ''banana'', 1)]
   \<and> length (top_words [(str_of ''apple'', 2), (str_of ''banana'', 1), (str_of ''grape'', 3)] 15) = 3"
proof -
  let ?d = "[(str_of ''apple'', 2::int), (str_of ''banana'', 1), (str_of ''grape'', 3)]"
  have h1: "distinct (map fst ?d)" by (simp add: str_of_def)
  have "card (fst ` set ?d) = length ?d" using h1 by (rule dict_size)
  then have c: "card (fst ` set ?d) = 3" by simp
  then have h2: "int (card (fst ` set ?d)) < 15" by simp
  note t = top_words_beyond_size [OF h1 h2]
  have s: "sorted_reverse snd ?d =
      [(str_of ''grape'', 3), (str_of ''apple'', 2), (str_of ''banana'', 1)]"
    by (simp add: sorted_reverse_def)
  note l = t [THEN conjunct2, THEN conjunct1]
  from t [THEN conjunct1]
  have "top_words ?d 15 = [(str_of ''grape'', 3), (str_of ''apple'', 2), (str_of ''banana'', 1)]"
    by (simp only: s)
  moreover from l have "length (top_words ?d 15) = 3" by (simp only: c)
  ultimately show ?thesis using h1 by simp
qed

text \<open>
  Claim C7. The pipeline is deterministic: two runs of \<^verbatim>\<open>map_reduce\<close> on the same
  text, whatever the order in which the worker threads of either run finish their tasks,
  return the same dict: the same entries in the same order, hence the same set of
  (word, total) entries and the same total for every word.
\<close>

theorem map_reduce_deterministic:
  "map_reduce scheds text = map_reduce scheds' text
   \<and> set (map_reduce scheds text) = set (map_reduce scheds' text)
   \<and> map_of (map_reduce scheds text) = map_of (map_reduce scheds' text)"
  by (simp add: map_reduce_sequential)

text \<open>
  Claim C8. For the text \<^verbatim>\<open>apple apple banana grape grape grape\<close> every word
  passes the filter, \<^verbatim>\<open>map_reduce\<close> returns apple 2, banana 1, grape 3, and the
  ranking with \<open>top_n = 2\<close> is grape 3, apple 2.
\<close>

theorem example_apple_banana_grape:
  "map_reduce_words (str_of ''apple apple banana grape grape grape'') =
     split (str_of ''apple apple banana grape grape grape'')
   \<and> map_reduce scheds (str_of ''apple apple banana grape grape grape'') =
       [(str_of ''apple'', 2), (str_of ''banana'', 1), (str_of ''grape'', 3)]
   \<and> top_words (map_reduce scheds (str_of ''apple apple banana grape grape grape'')) 2 =
       [(str_of ''grape'', 3), (str_of ''apple'', 2)]"
proof -
  have s: "split (str_of ''apple apple banana grape grape grape'') =
     [str_of ''apple'', str_of ''apple'', str_of ''banana'',
      str_of ''grape'', str_of ''grape'', str_of ''grape'']"
    by (simp add: split_def isspace_def str_of_def)
  have m: "map_reduce scheds (str_of ''apple apple banana grape grape grape'') =
       [(str_of ''apple'', 2), (str_of ''banana'', 1), (str_of ''grape'', 3)]"
    by (simp add: map_reduce_counts example_words) (simp add: str_of_def)
  have "top_words [(str_of ''apple'', 2), (str_of ''banana'', 1), (str_of ''grape'', 3)] 2 =
       [(str_of ''grape'', 3), (str_of ''apple'', 2)]"
    by (simp add: top_words_def sorted_reverse_def slice_to_def)
  with s m show ?thesis by (simp only: example_words)
qed

text \<open>
  Claim C9. For every sequence of pairs, \<^verbatim>\<open>shuffle_function\<close> returns one group
  per distinct word; the contributions of a group are the values of the pairs with that
  word, in input order; and the groups are in the order in which their words first
  occur: the word of the first pair comes first, followed by the other words in the
  order the rest of the pairs gives them.
\<close>

theorem shuffle_function_insertion_ordered:
  "shuffle_function pairs =
     map (\<lambda>k. (k, map snd (filter (\<lambda>p. fst p = k) pairs))) (map fst (shuffle_function pairs))
   \<and> map fst (shuffle_function pairs) = rev (remdups (rev (map fst pairs)))
   \<and> map fst (shuffle_function ([] :: ('k \<times> 'v) list)) = []
   \<and> map fst (shuffle_function (p # pairs)) =
       fst p # filter (\<lambda>k. k \<noteq> fst p) (map fst (shuffle_function pairs))
   \<and> distinct (map fst (shuffle_function pairs))"
proof -
  have "shuffle_function pairs =
     map (\<lambda>k. (k, map snd (filter (\<lambda>p. fst p = k) pairs))) (map fst (shuffle_function pairs))"
    by (simp only: keys_shuffle_function) (rule shuffle_function_groups)
  moreover have "map fst (shuffle_function ([] :: ('k \<times> 'v) list)) = []"
    by (simp add: shuffle_function_def)
  moreover have "distinct (map fst (shuffle_function pairs))"
    by (simp add: keys_shuffle_function)
  ultimately show ?thesis
    using keys_shuffle_function [of pairs] keys_shuffle_function_Cons [of p pairs] by blast
qed

text \<open>
  Claim C10. For an empty word-frequency dict \<^verbatim>\<open>visualize_top_words\<close> raises
  \<^verbatim>\<open>ValueError\<close> whatever \<open>top_n\<close> is, since unpacking
  \<^verbatim>\<open>zip(*sorted_words)\<close> finds nothing to unpack; \<^verbatim>\<open>map_reduce\<close> of the empty
  text returns the empty dict without failing, and giving that dict to
  \<^verbatim>\<open>visualize_top_words\<close> raises.
\<close>

theorem visualize_top_words_empty_raises:
  "visualize_top_words ([] :: (pystr, int) pydict) top_n = Inl ValueError
   \<and> map_reduce scheds [] = []
   \<and> visualize_top_words (map_reduce scheds []) top_n = Inl ValueError"
  by (simp add: visualize_top_words_def top_words_empty map_reduce_no_words map_reduce_words_empty)

end
